theory Spec2Isabelle
  imports Main "HOL-Library.AList" "HOL-Library.Sublist"
begin

section \<open>Object model\<close>

text \<open>
  The module \<^verbatim>\<open>hutch_python/namespace.py\<close> inspects and mutates arbitrary Python
  objects through \<^verbatim>\<open>isinstance\<close>, \<^verbatim>\<open>issubclass\<close>, \<^verbatim>\<open>hasattr\<close>, \<^verbatim>\<open>getattr\<close> and
  \<^verbatim>\<open>setattr\<close>. Objects live in a store and are named by their address, so that
  \<^verbatim>\<open>x is y\<close> is equality of references and a \<^verbatim>\<open>setattr\<close> through one reference is
  seen through every other one.
\<close>

type_synonym addr = nat
type_synonym cname = string

datatype val = PyNone | Ref addr

text \<open>
  An object carries its class, the attributes that \<^verbatim>\<open>hasattr\<close> and \<^verbatim>\<open>getattr\<close> see
  (in insertion order), whether \<^verbatim>\<open>setattr\<close> of a new attribute succeeds or raises
  \<^verbatim>\<open>AttributeError\<close> (as it does on an \<^verbatim>\<open>int\<close> or on an object with \<^verbatim>\<open>__slots__\<close>),
  and, for a \<^verbatim>\<open>str\<close> object, its characters.
\<close>

record pyobj =
  obj_type :: cname
  obj_attrs :: "(string \<times> val) list"
  obj_settable :: bool
  obj_str :: "string option"

type_synonym heap = "addr \<Rightarrow> pyobj"

datatype error = TypeError | AttributeError | RecursionError

text \<open>
  A component descriptor of an ophyd device class: \<^verbatim>\<open>Component\<close> has the attributes
  \<^verbatim>\<open>cls\<close> and \<^verbatim>\<open>lazy\<close>; a dynamic component has no \<^verbatim>\<open>cls\<close> attribute.
\<close>

datatype component = Component (cpt_cls: cname) (cpt_lazy: bool) | Dynamic

text \<open>
  A class is given by its method resolution order (the class itself first, as in
  \<^verbatim>\<open>__mro__\<close>) and by its component descriptors; \<^verbatim>\<open>component_names\<close> lists their
  names in declaration order.
\<close>

record class_decl =
  mro :: "cname list"
  components :: "(string \<times> component) list"

type_synonym class_table = "cname \<Rightarrow> class_decl"

definition component_names :: "class_decl \<Rightarrow> string list" where
  "component_names d = map fst (components d)"

text \<open>
  What a call of \<^verbatim>\<open>class_namespace\<close> depends on besides its arguments: the classes
  that exist, the collaborator \<^verbatim>\<open>find_class\<close> of \<^verbatim>\<open>hutch_python.utils\<close> (\<open>None\<close> when
  it raises), and the interpreter's recursion limit.
\<close>

record pyenv =
  classes :: class_table
  find_class :: "string \<Rightarrow> cname option"
  recursion_limit :: nat

definition type_of :: "heap \<Rightarrow> val \<Rightarrow> cname" where
  "type_of h v = (case v of PyNone \<Rightarrow> ''NoneType'' | Ref a \<Rightarrow> obj_type (h a))"

definition issubclass :: "class_table \<Rightarrow> cname \<Rightarrow> cname \<Rightarrow> bool" where
  "issubclass ct c d = (d \<in> set (mro (ct c)))"

definition isinstance :: "class_table \<Rightarrow> heap \<Rightarrow> val \<Rightarrow> cname \<Rightarrow> bool" where
  "isinstance ct h v d = issubclass ct (type_of h v) d"

text \<open>\<^verbatim>\<open>inspect.isfunction(obj)\<close> is \<^verbatim>\<open>isinstance(obj, types.FunctionType)\<close>.\<close>

definition isfunction :: "class_table \<Rightarrow> heap \<Rightarrow> val \<Rightarrow> bool" where
  "isfunction ct h v = isinstance ct h v ''function''"

definition getattr :: "heap \<Rightarrow> val \<Rightarrow> string \<Rightarrow> error + val" where
  "getattr h v k =
     (case v of
        PyNone \<Rightarrow> Inl AttributeError
      | Ref a \<Rightarrow> (case map_of (obj_attrs (h a)) k of
                    None \<Rightarrow> Inl AttributeError
                  | Some w \<Rightarrow> Inr w))"

section \<open>class_namespace\<close>

text \<open>
  The argument \<^verbatim>\<open>cls\<close> is a type or a string. After the resolution of a string it
  is a type, or still the string \<^verbatim>\<open>'function'\<close>.
\<close>

datatype cls_arg = ClsType cname | ClsStr string

datatype target = Target cname | FunctionSentinel

datatype log_entry =
    ErrTypeNotLoaded string
  | WarnKeyword string string
  | WarnInvalidIdentifier string string
  | WarnOverwrite addr string val
  | WarnNotValidNode addr

text \<open>
  \<^verbatim>\<open>issubclass(cpt.cls, desired_cls)\<close>: with the string \<^verbatim>\<open>'function'\<close> as second
  argument Python raises \<^verbatim>\<open>TypeError\<close>.
\<close>

fun issubclass_target :: "class_table \<Rightarrow> cname \<Rightarrow> target \<Rightarrow> error + bool" where
  "issubclass_target ct c (Target d) = Inr (issubclass ct c d)"
| "issubclass_target ct c FunctionSentinel = Inl TypeError"

type_synonym path = "string list"
type_synonym cache = "cname \<rightharpoonup> path list"

text \<open>
  The recursive helper \<^verbatim>\<open>inspect_device_cls\<close>. The first argument is the number of
  stack frames left before Python raises \<^verbatim>\<open>RecursionError\<close>. \<open>inspect_cpts\<close> is the
  loop over \<^verbatim>\<open>device_cls.component_names\<close>, with the list \<^verbatim>\<open>attrs\<close> built so far; the
  cache is the one dictionary shared by all calls. The entry of \<^verbatim>\<open>device_cls\<close> is
  written after the loop.
\<close>

function inspect_device_cls ::
    "nat \<Rightarrow> class_table \<Rightarrow> cname \<Rightarrow> target \<Rightarrow> cache \<Rightarrow> error + (path list \<times> cache)"
  and inspect_cpts ::
    "nat \<Rightarrow> class_table \<Rightarrow> cname \<Rightarrow> target \<Rightarrow> string list \<Rightarrow> path list \<Rightarrow> cache
      \<Rightarrow> error + (path list \<times> cache)"
where
  "inspect_device_cls 0 ct device_cls desired_cls cache = Inl RecursionError"
| "inspect_device_cls (Suc n) ct device_cls desired_cls cache =
     (case cache device_cls of
        Some attrs \<Rightarrow> Inr (attrs, cache)
      | None \<Rightarrow>
          if issubclass ct device_cls ''Device'' then
            (case inspect_cpts n ct device_cls desired_cls
                    (component_names (ct device_cls)) [] cache of
               Inl e \<Rightarrow> Inl e
             | Inr (attrs, cache') \<Rightarrow> Inr (attrs, cache'(device_cls \<mapsto> attrs)))
          else Inr ([], cache(device_cls \<mapsto> [])))"
| "inspect_cpts n ct device_cls desired_cls [] attrs cache = Inr (attrs, cache)"
| "inspect_cpts n ct device_cls desired_cls (cpt_name # rest) attrs cache =
     (case map_of (components (ct device_cls)) cpt_name of
        None \<Rightarrow> Inl AttributeError
      | Some Dynamic \<Rightarrow> inspect_cpts n ct device_cls desired_cls rest attrs cache
      | Some (Component c lazy) \<Rightarrow>
          if lazy then inspect_cpts n ct device_cls desired_cls rest attrs cache
          else
            (case issubclass_target ct c desired_cls of
               Inl e \<Rightarrow> Inl e
             | Inr matches \<Rightarrow>
                 (case inspect_device_cls n ct c desired_cls cache of
                    Inl e \<Rightarrow> Inl e
                  | Inr (subattrs, cache') \<Rightarrow>
                      inspect_cpts n ct device_cls desired_cls rest
                        ((if matches then attrs @ [[cpt_name]] else attrs)
                           @ map (\<lambda>a. cpt_name # a) subattrs)
                        cache')))"
  by pat_completeness auto
termination
  by (relation "inv_image (less_than <*lex*> less_than <*lex*> less_than)
        (\<lambda>x. case x of
           Inl (n, ct, c, d, cache) \<Rightarrow> (n, 0::nat, 0::nat)
         | Inr (n, ct, c, d, names, attrs, cache) \<Rightarrow> (n, 1, length names))") auto

text \<open>
  The inner loops of the scope loop: \<^verbatim>\<open>for attr in attrs: device = getattr(device, attr)\<close>,
  then \<^verbatim>\<open>device.name\<close>, which \<^verbatim>\<open>setattr\<close> accepts as an attribute name only when it is
  a \<^verbatim>\<open>str\<close>.
\<close>

fun walk :: "heap \<Rightarrow> val \<Rightarrow> path \<Rightarrow> error + val" where
  "walk h device [] = Inr device"
| "walk h device (attr # attrs) =
     (case getattr h device attr of
        Inl e \<Rightarrow> Inl e
      | Inr device' \<Rightarrow> walk h device' attrs)"

definition device_name :: "heap \<Rightarrow> val \<Rightarrow> error + string" where
  "device_name h device =
     (case getattr h device ''name'' of
        Inl e \<Rightarrow> Inl e
      | Inr PyNone \<Rightarrow> Inl TypeError
      | Inr (Ref s) \<Rightarrow> (case obj_str (h s) of
                          None \<Rightarrow> Inl TypeError
                        | Some nm \<Rightarrow> Inr nm))"

type_synonym namespace = "(string \<times> val) list"

text \<open>
  Modelled from the spec: \<^verbatim>\<open>IterableNamespace\<close> of \<^verbatim>\<open>hutch_python.utils\<close> is not among
  the sources. It is "a dynamically-extensible record mapping attribute names to
  values"; \<^verbatim>\<open>setattr\<close> on it stores the value under the name, replacing a value
  already there.
\<close>

definition setattr_ns :: "namespace \<Rightarrow> string \<Rightarrow> val \<Rightarrow> namespace" where
  "setattr_ns ns name v = AList.update name v ns"

fun add_subdevices :: "heap \<Rightarrow> val \<Rightarrow> path list \<Rightarrow> namespace \<Rightarrow> error + namespace" where
  "add_subdevices h obj [] class_space = Inr class_space"
| "add_subdevices h obj (attrs # rest) class_space =
     (case walk h obj attrs of
        Inl e \<Rightarrow> Inl e
      | Inr device \<Rightarrow>
          (case device_name h device of
             Inl e \<Rightarrow> Inl e
           | Inr nm \<Rightarrow> add_subdevices h obj rest (setattr_ns class_space nm device)))"

definition include_obj :: "class_table \<Rightarrow> heap \<Rightarrow> target \<Rightarrow> val \<Rightarrow> bool" where
  "include_obj ct h cls obj =
     (case cls of
        FunctionSentinel \<Rightarrow> isfunction ct h obj
      | Target d \<Rightarrow> isinstance ct h obj d)"

text \<open>The loop \<^verbatim>\<open>for name, obj in scope_objs.items()\<close>.\<close>

fun scope_loop ::
    "pyenv \<Rightarrow> heap \<Rightarrow> target \<Rightarrow> (string \<times> val) list \<Rightarrow> namespace \<Rightarrow> cache \<Rightarrow> error + namespace"
where
  "scope_loop E h cls [] class_space cache = Inr class_space"
| "scope_loop E h cls ((name, obj) # rest) class_space cache =
     (let class_space1 =
            (if include_obj (classes E) h cls obj
             then setattr_ns class_space name obj else class_space)
      in if isinstance (classes E) h obj ''Device'' then
           (case inspect_device_cls (recursion_limit E) (classes E)
                   (type_of h obj) cls cache of
              Inl e \<Rightarrow> Inl e
            | Inr (subdevice_attrs, cache') \<Rightarrow>
                (case add_subdevices h obj subdevice_attrs class_space1 of
                   Inl e \<Rightarrow> Inl e
                 | Inr class_space2 \<Rightarrow> scope_loop E h cls rest class_space2 cache'))
         else scope_loop E h cls rest class_space1 cache)"

text \<open>
  \<^verbatim>\<open>class_namespace(cls, scope)\<close>. The mapping \<^verbatim>\<open>scope_objs\<close> is what the collaborator
  \<^verbatim>\<open>extract_objs\<close> returned. The result is the attribute dictionary of the returned
  container and the records logged at error level.
\<close>

definition class_namespace ::
    "pyenv \<Rightarrow> heap \<Rightarrow> cls_arg \<Rightarrow> (string \<times> val) list \<Rightarrow> error + (namespace \<times> log_entry list)"
where
  "class_namespace E h cls scope_objs =
     (case cls of
        ClsType c \<Rightarrow>
          (case scope_loop E h (Target c) scope_objs [] Map.empty of
             Inl e \<Rightarrow> Inl e | Inr class_space \<Rightarrow> Inr (class_space, []))
      | ClsStr s \<Rightarrow>
          if s \<noteq> ''function'' then
            (case find_class E s of
               None \<Rightarrow> Inr ([], [ErrTypeNotLoaded s])
             | Some c \<Rightarrow>
                 (case scope_loop E h (Target c) scope_objs [] Map.empty of
                    Inl e \<Rightarrow> Inl e | Inr class_space \<Rightarrow> Inr (class_space, [])))
          else
            (case scope_loop E h FunctionSentinel scope_objs [] Map.empty of
               Inl e \<Rightarrow> Inl e | Inr class_space \<Rightarrow> Inr (class_space, [])))"

section \<open>tree_namespace\<close>

text \<open>
  \<^verbatim>\<open>keyword.iskeyword\<close> of Python 3 and \<^verbatim>\<open>str.isidentifier\<close> on ASCII strings (a
  letter or underscore, then letters, digits and underscores).
\<close>

definition kwlist :: "string list" where
  "kwlist = [''False'', ''None'', ''True'', ''and'', ''as'', ''assert'', ''async'',
     ''await'', ''break'', ''class'', ''continue'', ''def'', ''del'', ''elif'', ''else'',
     ''except'', ''finally'', ''for'', ''from'', ''global'', ''if'', ''import'', ''in'',
     ''is'', ''lambda'', ''nonlocal'', ''not'', ''or'', ''pass'', ''raise'', ''return'',
     ''try'', ''while'', ''with'', ''yield'']"

definition iskeyword :: "string \<Rightarrow> bool" where
  "iskeyword k = (k \<in> set kwlist)"

definition id_start :: "char \<Rightarrow> bool" where
  "id_start c = (c \<in> set ''abcdefghijklmnopqrstuvwxyzABCDEFGHIJKLMNOPQRSTUVWXYZ_'')"

definition id_continue :: "char \<Rightarrow> bool" where
  "id_continue c = (id_start c \<or> c \<in> set ''0123456789'')"

definition isidentifier :: "string \<Rightarrow> bool" where
  "isidentifier k = (case k of [] \<Rightarrow> False | c # cs \<Rightarrow> id_start c \<and> list_all id_continue cs)"

text \<open>\<^verbatim>\<open>str.split(sep)\<close> for a separator of one character.\<close>

fun split_on :: "char \<Rightarrow> string \<Rightarrow> string list" where
  "split_on sep [] = [[]]"
| "split_on sep (c # cs) =
     (if c = sep then [] # split_on sep cs
      else (case split_on sep cs of [] \<Rightarrow> [[c]] | w # ws \<Rightarrow> (c # w) # ws))"

text \<open>
  The first loop over \<^verbatim>\<open>keys\<close>: the warning of the first key that is a keyword or
  not an identifier (then \<^verbatim>\<open>valid_keys\<close> is false), or \<open>None\<close>.
\<close>

fun check_keys :: "string \<Rightarrow> string list \<Rightarrow> log_entry option" where
  "check_keys name [] = None"
| "check_keys name (key # keys) =
     (if iskeyword key then Some (WarnKeyword key name)
      else if \<not> isidentifier key then Some (WarnInvalidIdentifier key name)
      else check_keys name keys)"

text \<open>
  A node of \<^verbatim>\<open>tree_dict\<close>: a dictionary whose keys are path segments, each bound to
  a nested dictionary, and possibly the key \<^verbatim>\<open>'_obj'\<close>, bound to an object. A segment
  comes out of \<^verbatim>\<open>split('_')\<close> and holds no underscore, so \<^verbatim>\<open>'_obj'\<close> is never a
  segment and its entry is kept apart from the others.
\<close>

datatype node = Node (leaf: "val option") (kids: "(string \<times> node) list")

text \<open>
  \<^verbatim>\<open>for key in keys: curr_dict = curr_dict[key]\<close> on a \<^verbatim>\<open>defaultdict\<close>, which creates
  a missing entry at the end of the dictionary, then \<^verbatim>\<open>curr_dict['_obj'] = obj\<close>.
\<close>

fun insert_path :: "string list \<Rightarrow> val \<Rightarrow> node \<Rightarrow> node" where
  "insert_path [] obj (Node l cs) = Node (Some obj) cs"
| "insert_path (key # keys) obj (Node l cs) =
     Node l (AList.update key
       (insert_path keys obj (case map_of cs key of None \<Rightarrow> Node None [] | Some n \<Rightarrow> n)) cs)"

fun accumulate :: "(string \<times> val) list \<Rightarrow> node \<Rightarrow> node \<times> log_entry list" where
  "accumulate [] tree_dict = (tree_dict, [])"
| "accumulate ((name, obj) # rest) tree_dict =
     (let keys = split_on CHR ''_'' name in
      case check_keys name keys of
        Some w \<Rightarrow> (let (t, ws) = accumulate rest tree_dict in (t, w # ws))
      | None \<Rightarrow> accumulate rest (insert_path keys obj tree_dict))"

text \<open>The store: the objects and the next address to allocate.\<close>

record store =
  st_heap :: heap
  st_next :: addr

text \<open>
  Modelled from the spec: \<^verbatim>\<open>IterableNamespace()\<close> of \<^verbatim>\<open>hutch_python.utils\<close>, not among
  the sources, makes a new container with no attribute set, which accepts any
  attribute.
\<close>

definition empty_namespace :: pyobj where
  "empty_namespace =
     \<lparr>obj_type = ''IterableNamespace'', obj_attrs = [], obj_settable = True, obj_str = None\<rparr>"

definition new_namespace :: "store \<Rightarrow> addr \<times> store" where
  "new_namespace s =
     (st_next s,
      s\<lparr>st_heap := (st_heap s)(st_next s := empty_namespace), st_next := Suc (st_next s)\<rparr>)"

definition hasattr :: "store \<Rightarrow> addr \<Rightarrow> string \<Rightarrow> bool" where
  "hasattr s a k = (map_of (obj_attrs (st_heap s a)) k \<noteq> None)"

definition setattr :: "store \<Rightarrow> addr \<Rightarrow> string \<Rightarrow> val \<Rightarrow> store" where
  "setattr s a k v =
     s\<lparr>st_heap := (st_heap s)
        (a := (st_heap s a)\<lparr>obj_attrs := AList.update k v (obj_attrs (st_heap s a))\<rparr>)\<rparr>"

text \<open>
  \<^verbatim>\<open>unpack_node\<close>; \<open>unpack_items\<close> is its loop over \<^verbatim>\<open>node.items()\<close>, with the current
  value of the variable \<^verbatim>\<open>obj\<close>, which is never \<^verbatim>\<open>None\<close> there. Both return the
  object, the store and the warnings logged.
\<close>

fun unpack_node :: "node \<Rightarrow> store \<Rightarrow> val \<times> store \<times> log_entry list"
  and unpack_items :: "(string \<times> node) list \<Rightarrow> addr \<Rightarrow> store \<Rightarrow> val \<times> store \<times> log_entry list"
where
  "unpack_node (Node l cs) s =
     (case (case l of None \<Rightarrow> PyNone | Some obj \<Rightarrow> obj) of
        PyNone \<Rightarrow> (let (a, s1) = new_namespace s in unpack_items cs a s1)
      | Ref a \<Rightarrow> unpack_items cs a s)"
| "unpack_items [] a s = (Ref a, s, [])"
| "unpack_items ((key, value) # rest) a s =
     (if hasattr s a key then
        (let (r, s', ws) = unpack_items rest a s
         in (r, s', WarnOverwrite a key (the (map_of (obj_attrs (st_heap s a)) key)) # ws))
      else
        (let (sub_node, s1, ws1) = unpack_node value s in
         if obj_settable (st_heap s1 a) then
           (let (r, s', ws) = unpack_items rest a (setattr s1 a key sub_node)
            in (r, s', ws1 @ ws))
         else
           (let (b, s2) = new_namespace s1;
                (r, s', ws) = unpack_items rest b (setattr s2 b key sub_node)
            in (r, s', ws1 @ WarnNotValidNode a # ws))))"

text \<open>
  \<^verbatim>\<open>tree_namespace(objs=None)\<close>: the first statement is \<^verbatim>\<open>objs.keys()\<close>, which raises
  \<^verbatim>\<open>AttributeError\<close> on \<^verbatim>\<open>None\<close>.
\<close>

definition tree_namespace ::
    "(string \<times> val) list option \<Rightarrow> store \<Rightarrow> error + (val \<times> store \<times> log_entry list)"
where
  "tree_namespace objs s =
     (case objs of
        None \<Rightarrow> Inl AttributeError
      | Some m \<Rightarrow>
          (let (tree_dict, ws) = accumulate m (Node None []);
               (tree_space, s', ws') = unpack_node tree_dict s
           in Inr (tree_space, s', ws @ ws')))"

section \<open>Notions used in the statements\<close>

text \<open>
  The class reached from \<open>c\<close> along a list of slot names, when every slot on the way
  is a component with a \<^verbatim>\<open>cls\<close> that is not lazy, of a subclass of \<^verbatim>\<open>Device\<close>.
\<close>

fun typed_path :: "class_table \<Rightarrow> cname \<Rightarrow> path \<Rightarrow> cname option" where
  "typed_path ct c [] = Some c"
| "typed_path ct c (slot # p) =
     (if issubclass ct c ''Device'' then
        (case map_of (components (ct c)) slot of
           Some (Component d lazy) \<Rightarrow> if lazy then None else typed_path ct d p
         | _ \<Rightarrow> None)
      else None)"

text \<open>A path none of whose slots is lazy or without a \<^verbatim>\<open>cls\<close>.\<close>

fun live_path :: "class_table \<Rightarrow> cname \<Rightarrow> path \<Rightarrow> bool" where
  "live_path ct c [] = True"
| "live_path ct c (slot # p) =
     (case map_of (components (ct c)) slot of
        Some (Component d lazy) \<Rightarrow> \<not> lazy \<and> live_path ct d p
      | _ \<Rightarrow> False)"

definition good_path :: "class_table \<Rightarrow> target \<Rightarrow> cname \<Rightarrow> path \<Rightarrow> bool" where
  "good_path ct desired c p =
     (case typed_path ct c p of
        None \<Rightarrow> False
      | Some d \<Rightarrow> issubclass_target ct d desired = Inr True)"

definition cache_ok :: "class_table \<Rightarrow> target \<Rightarrow> cache \<Rightarrow> bool" where
  "cache_ok ct desired cache =
     (\<forall>c ps. cache c = Some ps \<longrightarrow> list_all (good_path ct desired c) ps)"

definition cache_live :: "class_table \<Rightarrow> cache \<Rightarrow> bool" where
  "cache_live ct cache = (\<forall>c ps. cache c = Some ps \<longrightarrow> list_all (live_path ct c) ps)"

text \<open>Every object stored in a container passes the inclusion test of the target.\<close>

definition entries_ok :: "class_table \<Rightarrow> heap \<Rightarrow> target \<Rightarrow> namespace \<Rightarrow> bool" where
  "entries_ok ct h cls ns = (\<forall>(name, obj) \<in> set ns. include_obj ct h cls obj)"

text \<open>
  What ophyd guarantees of a device instance: at each component slot that is not
  lazy it holds an instance of the slot's declared class, made by \<^verbatim>\<open>cpt.cls(...)\<close>
  when the device was built.
\<close>

definition conforms :: "class_table \<Rightarrow> heap \<Rightarrow> bool" where
  "conforms ct h =
     (\<forall>a slot d. issubclass ct (obj_type (h a)) ''Device'' \<longrightarrow>
        map_of (components (ct (obj_type (h a)))) slot = Some (Component d False) \<longrightarrow>
        (\<exists>b. map_of (obj_attrs (h a)) slot = Some (Ref b) \<and> obj_type (h b) = d))"


definition segments :: "string \<Rightarrow> string list" where
  "segments name = split_on CHR ''_'' name"

definition valid_name :: "string \<Rightarrow> bool" where
  "valid_name name = (check_keys name (segments name) = None)"







text \<open>
  A later store extends an earlier one: every object allocated before is still
  there, of the same class, accepts attributes as before, and has kept each
  attribute it had with its value; an object that takes no attribute is unchanged.
\<close>

definition extends :: "store \<Rightarrow> store \<Rightarrow> bool" where
  "extends s s' =
     (st_next s \<le> st_next s' \<and>
      (\<forall>b < st_next s.
         obj_type (st_heap s' b) = obj_type (st_heap s b) \<and>
         obj_settable (st_heap s' b) = obj_settable (st_heap s b) \<and>
         (\<not> obj_settable (st_heap s b) \<longrightarrow> st_heap s' b = st_heap s b) \<and>
         (\<forall>k v. map_of (obj_attrs (st_heap s b)) k = Some v
            \<longrightarrow> map_of (obj_attrs (st_heap s' b)) k = Some v)))"

text \<open>The objects allocated before that are not in the set are unchanged.\<close>

definition same_outside :: "addr set \<Rightarrow> store \<Rightarrow> store \<Rightarrow> bool" where
  "same_outside A s s' = (\<forall>b < st_next s. b \<notin> A \<longrightarrow> st_heap s' b = st_heap s b)"


text \<open>
  The object found in the returned tree by following the attributes of a path from
  the root, as \<^verbatim>\<open>root.a.b.c\<close> does.
\<close>

definition attr_at :: "(string \<times> val) list \<Rightarrow> store \<Rightarrow> path \<Rightarrow> error + val" where
  "attr_at objs s p =
     (case tree_namespace (Some objs) s of
        Inl e \<Rightarrow> Inl e
      | Inr (root, s', ws) \<Rightarrow> walk (st_heap s') root p)"



section \<open>Example data\<close>

definition plain :: "cname \<Rightarrow> class_decl" where
  "plain c = \<lparr>mro = [c, ''object''], components = []\<rparr>"

definition ex_dag :: class_table where
  "ex_dag = plain
     (''Device'' := \<lparr>mro = [''Device'', ''object''], components = []\<rparr>,
      ''Motor'' := \<lparr>mro = [''Motor'', ''Device'', ''object''],
         components = [(''readback'', Component ''Signal'' False),
                       (''limits'', Component ''Signal'' True),
                       (''dyn'', Dynamic)]\<rparr>,
      ''Stage'' := \<lparr>mro = [''Stage'', ''Device'', ''object''],
         components = [(''x'', Component ''Motor'' False),
                       (''y'', Component ''Motor'' True)]\<rparr>)"


text \<open>A class table with a device class that has itself as a component.\<close>

definition ex_cyclic :: class_table where
  "ex_cyclic = ex_dag
     (''Loop'' := \<lparr>mro = [''Loop'', ''Device'', ''object''],
         components = [(''again'', Component ''Loop'' False)]\<rparr>)"

definition ex_env :: pyenv where
  "ex_env = \<lparr>classes = ex_dag,
             find_class = (\<lambda>p. if p = ''ophyd.Signal'' then Some ''Signal'' else None),
             recursion_limit = 1000\<rparr>"

definition str_obj :: "string \<Rightarrow> pyobj" where
  "str_obj w = \<lparr>obj_type = ''str'', obj_attrs = [], obj_settable = False, obj_str = Some w\<rparr>"

text \<open>
  A heap with: the integer at 1, which takes no new attribute; an object at 2 with
  an attribute \<^verbatim>\<open>gauge\<close> of its own; an object at 3 whose attribute \<^verbatim>\<open>b\<close> is \<^verbatim>\<open>None\<close>;
  plain objects at 4 and 5; a stage at 10 with its motor at 11 and the motor's
  readback signal at 12; a function at 13; a signal at 14; the names at 20 to 23.
\<close>

definition ex_heap :: heap where
  "ex_heap = (\<lambda>_. \<lparr>obj_type = ''object'', obj_attrs = [], obj_settable = True, obj_str = None\<rparr>)
     (1 := \<lparr>obj_type = ''int'', obj_attrs = [(''real'', Ref 1)], obj_settable = False,
            obj_str = None\<rparr>,
      2 := \<lparr>obj_type = ''object'', obj_attrs = [(''gauge'', Ref 4)], obj_settable = True,
            obj_str = None\<rparr>,
      3 := \<lparr>obj_type = ''object'', obj_attrs = [(''b'', PyNone)], obj_settable = True,
            obj_str = None\<rparr>,
      10 := \<lparr>obj_type = ''Stage'', obj_attrs = [(''name'', Ref 20), (''x'', Ref 11)],
             obj_settable = True, obj_str = None\<rparr>,
      11 := \<lparr>obj_type = ''Motor'', obj_attrs = [(''name'', Ref 21), (''readback'', Ref 12)],
             obj_settable = True, obj_str = None\<rparr>,
      12 := \<lparr>obj_type = ''Signal'', obj_attrs = [(''name'', Ref 22)], obj_settable = True,
             obj_str = None\<rparr>,
      13 := \<lparr>obj_type = ''function'', obj_attrs = [], obj_settable = True, obj_str = None\<rparr>,
      14 := \<lparr>obj_type = ''Signal'', obj_attrs = [(''name'', Ref 23)], obj_settable = True,
             obj_str = None\<rparr>,
      20 := str_obj ''stage'',
      21 := str_obj ''stage_x'',
      22 := str_obj ''stage_x_readback'',
      23 := str_obj ''sig'')"

definition ex_store :: store where
  "ex_store = \<lparr>st_heap = ex_heap, st_next = 30\<rparr>"

section \<open>Failures that reach the caller\<close>

lemmas ex_defs =
  ex_env_def ex_dag_def ex_cyclic_def ex_heap_def ex_store_def plain_def str_obj_def

text \<open>
  Claim C3 says that neither function ever raises. Called without an argument,
  \<^verbatim>\<open>tree_namespace\<close> raises \<^verbatim>\<open>AttributeError\<close> at \<^verbatim>\<open>objs.keys()\<close>; called with
  \<^verbatim>\<open>'function'\<close> on a scope that holds a stage with a motor, \<^verbatim>\<open>class_namespace\<close>
  raises \<^verbatim>\<open>TypeError\<close> at \<^verbatim>\<open>issubclass(cpt.cls, 'function')\<close>.
\<close>

theorem raises_to_caller:
  "tree_namespace None ex_store = Inl AttributeError \<and>
   class_namespace ex_env ex_heap (ClsStr ''function'') [(''stage'', Ref 10)] = Inl TypeError"
  by (simp add: tree_namespace_def class_namespace_def ex_defs isinstance_def issubclass_def
      type_of_def include_obj_def isfunction_def component_names_def numeral_nat)

section \<open>A class path that does not resolve\<close>



section \<open>Paths found by the discovery\<close>

lemma good_path_single:
  "issubclass ct c ''Device'' \<Longrightarrow> map_of (components (ct c)) nm = Some (Component d False) \<Longrightarrow>
   issubclass_target ct d desired = Inr True \<Longrightarrow> good_path ct desired c [nm]"
  by (simp add: good_path_def)

lemma good_path_extend:
  "issubclass ct c ''Device'' \<Longrightarrow> map_of (components (ct c)) nm = Some (Component d False) \<Longrightarrow>
   good_path ct desired d a \<Longrightarrow> good_path ct desired c (nm # a)"
  by (simp add: good_path_def)

lemma cache_ok_upd:
  "cache_ok ct desired cache \<Longrightarrow> list_all (good_path ct desired c) ps \<Longrightarrow>
   cache_ok ct desired (cache(c \<mapsto> ps))"
  by (auto simp: cache_ok_def split: if_splits)

lemma inspect_good:
  "cache_ok ct desired cache \<Longrightarrow>
   inspect_device_cls n ct c desired cache = Inr (ps, cache') \<Longrightarrow>
   cache_ok ct desired cache' \<and> list_all (good_path ct desired c) ps"
  "cache_ok ct desired cache \<Longrightarrow> issubclass ct c ''Device'' \<Longrightarrow>
   list_all (good_path ct desired c) attrs \<Longrightarrow>
   inspect_cpts n ct c desired names attrs cache = Inr (ps, cache') \<Longrightarrow>
   cache_ok ct desired cache' \<and> list_all (good_path ct desired c) ps"
proof (induction n ct c desired cache and n ct c desired names attrs cache
       arbitrary: ps cache' and ps cache' rule: inspect_device_cls_inspect_cpts.induct)
  case (1 ct device_cls desired_cls cache)
  then show ?case by simp
next
  case (2 n ct device_cls desired_cls cache)
  show ?case
  proof (cases "cache device_cls")
    case (Some attrs)
    with "2.prems" show ?thesis by (auto simp: cache_ok_def)
  next
    case None
    show ?thesis
    proof (cases "issubclass ct device_cls ''Device''")
      case False
      with None "2.prems" show ?thesis by (auto intro: cache_ok_upd)
    next
      case True
      from None True "2.prems"(2) obtain attrs c1 where
        run: "inspect_cpts n ct device_cls desired_cls (component_names (ct device_cls)) [] cache
              = Inr (attrs, c1)" and
        res: "ps = attrs" "cache' = c1(device_cls \<mapsto> attrs)"
        by (auto split: sum.splits)
      from "2.IH"[OF None True "2.prems"(1) True _ run]
      have "cache_ok ct desired_cls c1 \<and> list_all (good_path ct desired_cls device_cls) attrs"
        by simp
      then have "cache_ok ct desired_cls (c1(device_cls \<mapsto> attrs))"
          and "list_all (good_path ct desired_cls device_cls) attrs"
        by (simp_all add: cache_ok_upd)
      then show ?thesis unfolding res by blast
    qed
  qed
next
  case (3 n ct device_cls desired_cls attrs cache)
  then show ?case by simp
next
  case (4 n ct device_cls desired_cls cpt_name rest attrs cache)
  show ?case
  proof (cases "map_of (components (ct device_cls)) cpt_name")
    case None
    with "4.prems" show ?thesis by simp
  next
    case (Some cpt)
    show ?thesis
    proof (cases cpt)
      case Dynamic
      with Some "4.prems"(4) have
        run: "inspect_cpts n ct device_cls desired_cls rest attrs cache = Inr (ps, cache')"
        by simp
      show ?thesis
        using "4.IH"(4) Some Dynamic "4.prems"(1,2,3) run by blast
    next
      case (Component d lazy)
      show ?thesis
      proof (cases lazy)
        case True
        with Some Component "4.prems"(4) have
          run: "inspect_cpts n ct device_cls desired_cls rest attrs cache = Inr (ps, cache')"
          by simp
        show ?thesis
          using "4.IH"(1) Some Component True "4.prems"(1,2,3) run by blast
      next
        case False
        from Some Component False "4.prems"(4) obtain matches subattrs c1 where
          m: "issubclass_target ct d desired_cls = Inr matches" and
          sub: "inspect_device_cls n ct d desired_cls cache = Inr (subattrs, c1)" and
          rest: "inspect_cpts n ct device_cls desired_cls rest
                  ((if matches then attrs @ [[cpt_name]] else attrs)
                     @ map (\<lambda>a. cpt_name # a) subattrs) c1 = Inr (ps, cache')"
          by (auto split: sum.splits)
        from "4.IH"(2)[OF Some Component False m "4.prems"(1) sub]
        have c1: "cache_ok ct desired_cls c1" and
          subg: "list_all (good_path ct desired_cls d) subattrs" by simp_all
        have cpt: "map_of (components (ct device_cls)) cpt_name = Some (Component d False)"
          using Some Component False by simp
        have g1: "matches \<Longrightarrow> good_path ct desired_cls device_cls [cpt_name]"
          using good_path_single[OF "4.prems"(2) cpt] m by simp
        have g2: "list_all (good_path ct desired_cls device_cls) (map (\<lambda>a. cpt_name # a) subattrs)"
          using subg good_path_extend[OF "4.prems"(2) cpt]
          by (simp add: list_all_iff)
        have acc: "list_all (good_path ct desired_cls device_cls)
                ((if matches then attrs @ [[cpt_name]] else attrs)
                     @ map (\<lambda>a. cpt_name # a) subattrs)"
          using g1 g2 "4.prems"(3) by simp
        from "4.IH"(3)[OF Some Component False m sub _ c1 "4.prems"(2) acc rest]
        show ?thesis by simp
      qed
    qed
  qed
qed


lemma good_imp_live: "good_path ct desired c p \<Longrightarrow> live_path ct c p"
proof (induction p arbitrary: c)
  case Nil
  then show ?case by simp
next
  case (Cons slot p)
  then show ?case
    by (auto simp: good_path_def split: if_splits option.splits component.splits)
qed

section \<open>What class_namespace stores\<close>

lemma walk_typed:
  "conforms ct h \<Longrightarrow> typed_path ct (obj_type (h a)) p = Some d \<Longrightarrow>
   \<exists>b. walk h (Ref a) p = Inr (Ref b) \<and> obj_type (h b) = d"
proof (induction p arbitrary: a)
  case Nil
  then show ?case by simp
next
  case (Cons slot p)
  from Cons.prems(2) obtain e where
    dev: "issubclass ct (obj_type (h a)) ''Device''" and
    cpt: "map_of (components (ct (obj_type (h a)))) slot = Some (Component e False)" and
    tp: "typed_path ct e p = Some d"
    by (auto split: if_splits option.splits component.splits)
  from Cons.prems(1) dev cpt obtain b where
    b: "map_of (obj_attrs (h a)) slot = Some (Ref b)" "obj_type (h b) = e"
    unfolding conforms_def by blast
  from Cons.IH[OF Cons.prems(1), of b] tp b(2) obtain b' where
    "walk h (Ref b) p = Inr (Ref b')" "obj_type (h b') = d" by auto
  with b(1) show ?case by (simp add: getattr_def)
qed


lemma set_alist_update: "set (AList.update k v al) \<subseteq> insert (k, v) (set al)"
  by (induction al) auto

lemma entries_ok_setattr:
  "entries_ok ct h cls ns \<Longrightarrow> include_obj ct h cls v \<Longrightarrow> entries_ok ct h cls (setattr_ns ns k v)"
  using set_alist_update[of k v ns]
  by (auto simp: entries_ok_def setattr_ns_def)

lemma walk_None: "walk h PyNone p = Inr v \<Longrightarrow> v = PyNone"
  by (cases p) (auto simp: getattr_def)

lemma add_subdevices_None:
  "add_subdevices h PyNone paths ns = Inr ns' \<Longrightarrow> paths = []"
proof (cases paths)
  case Nil
  then show ?thesis by simp
next
  case (Cons p ps)
  assume run: "add_subdevices h PyNone paths ns = Inr ns'"
  with Cons obtain device nm where
    w: "walk h PyNone p = Inr device" and n: "device_name h device = Inr nm"
    by (auto split: sum.splits)
  from walk_None[OF w] n show ?thesis by (simp add: device_name_def getattr_def)
qed


lemma good_walk_included:
  assumes "conforms ct h" and "good_path ct cls (obj_type (h a)) p"
    and "walk h (Ref a) p = Inr device"
  shows "include_obj ct h cls device"
proof -
  from assms(2) obtain d where
    tp: "typed_path ct (obj_type (h a)) p = Some d" and sub: "issubclass_target ct d cls = Inr True"
    by (auto simp: good_path_def split: option.splits)
  from walk_typed[OF assms(1) tp] assms(3) obtain b where
    b: "device = Ref b" "obj_type (h b) = d" by auto
  from sub obtain D where "cls = Target D" "issubclass ct d D"
    by (cases cls) auto
  with b show ?thesis by (simp add: include_obj_def isinstance_def type_of_def)
qed

lemma add_subdevices_ok:
  "conforms ct h \<Longrightarrow> list_all (good_path ct cls (obj_type (h a))) paths \<Longrightarrow>
   entries_ok ct h cls ns \<Longrightarrow> add_subdevices h (Ref a) paths ns = Inr ns' \<Longrightarrow>
   entries_ok ct h cls ns'"
proof (induction paths arbitrary: ns)
  case Nil
  then show ?case by simp
next
  case (Cons p paths)
  from Cons.prems(4) obtain device nm where
    w: "walk h (Ref a) p = Inr device" and
    rest: "add_subdevices h (Ref a) paths (setattr_ns ns nm device) = Inr ns'"
    by (auto split: sum.splits)
  from Cons.prems(2) have gp: "good_path ct cls (obj_type (h a)) p"
    and gps: "list_all (good_path ct cls (obj_type (h a))) paths" by simp_all
  have "include_obj ct h cls device"
    by (rule good_walk_included[OF Cons.prems(1) gp w])
  then have "entries_ok ct h cls (setattr_ns ns nm device)"
    by (rule entries_ok_setattr[OF Cons.prems(3)])
  from Cons.IH[OF Cons.prems(1) gps this rest] show ?case .
qed

lemma scope_loop_ok:
  "conforms (classes E) h \<Longrightarrow> cache_ok (classes E) cls cache \<Longrightarrow>
   entries_ok (classes E) h cls ns \<Longrightarrow> scope_loop E h cls scope ns cache = Inr ns' \<Longrightarrow>
   entries_ok (classes E) h cls ns'"
proof (induction scope arbitrary: ns cache)
  case Nil
  then show ?case by simp
next
  case (Cons entry rest)
  obtain name obj where entry: "entry = (name, obj)" by (cases entry)
  let ?ns1 = "if include_obj (classes E) h cls obj then setattr_ns ns name obj else ns"
  have ns1: "entries_ok (classes E) h cls ?ns1"
    using Cons.prems(3) by (simp add: entries_ok_setattr)
  show ?case
  proof (cases "isinstance (classes E) h obj ''Device''")
    case False
    with Cons.prems(4) entry have "scope_loop E h cls rest ?ns1 cache = Inr ns'"
      by (simp add: Let_def)
    from Cons.IH[OF Cons.prems(1,2) ns1 this] show ?thesis .
  next
    case True
    with Cons.prems(4) entry obtain paths c1 ns2 where
      insp: "inspect_device_cls (recursion_limit E) (classes E) (type_of h obj) cls cache
              = Inr (paths, c1)" and
      add: "add_subdevices h obj paths ?ns1 = Inr ns2" and
      run: "scope_loop E h cls rest ns2 c1 = Inr ns'"
      by (auto simp: Let_def split: sum.splits)
    from inspect_good(1)[OF Cons.prems(2) insp]
    have c1: "cache_ok (classes E) cls c1"
      and gps: "list_all (good_path (classes E) cls (type_of h obj)) paths" by simp_all
    have ns2: "entries_ok (classes E) h cls ns2"
    proof (cases obj)
      case PyNone
      with add have "paths = []" by (auto dest: add_subdevices_None)
      with add ns1 show ?thesis by simp
    next
      case (Ref a)
      with gps add show ?thesis
        using add_subdevices_ok[OF Cons.prems(1) _ ns1, of a paths ns2]
        by (simp add: type_of_def)
    qed
    from Cons.IH[OF Cons.prems(1) c1 ns2 run] show ?thesis .
  qed
qed



text \<open>
  Claim C1: every object stored in the container that \<^verbatim>\<open>class_namespace\<close> returns is an
  instance of the target type or of a subtype of it, and a plain function when the
  target is \<^verbatim>\<open>'function'\<close>. This covers the objects of the scope and the sub-devices
  reached through the discovered paths, in a store where device instances hold at
  their component slots instances of the declared classes.
\<close>

theorem class_namespace_entries_match:
  assumes "conforms (classes E) h"
    and "class_namespace E h cls scope_objs = Inr (class_space, log)"
    and "(name, obj) \<in> set class_space"
  shows "case cls of
           ClsType D \<Rightarrow> isinstance (classes E) h obj D
         | ClsStr s \<Rightarrow>
             if s = ''function'' then isfunction (classes E) h obj
             else (\<exists>D. find_class E s = Some D \<and> isinstance (classes E) h obj D)"
proof -
  have loop: "include_obj (classes E) h t obj"
    if "scope_loop E h t scope_objs [] Map.empty = Inr class_space" for t
  proof -
    have "entries_ok (classes E) h t class_space"
      by (rule scope_loop_ok[OF assms(1) _ _ that]) (simp_all add: cache_ok_def entries_ok_def)
    with assms(3) show ?thesis by (auto simp: entries_ok_def)
  qed
  show ?thesis
  proof (cases cls)
    case (ClsType D)
    with assms(2) have "scope_loop E h (Target D) scope_objs [] Map.empty = Inr class_space"
      by (auto simp: class_namespace_def split: sum.splits)
    from loop[OF this] ClsType show ?thesis by (simp add: include_obj_def)
  next
    case (ClsStr s)
    show ?thesis
    proof (cases "s = ''function''")
      case True
      with ClsStr assms(2)
      have "scope_loop E h FunctionSentinel scope_objs [] Map.empty = Inr class_space"
        by (auto simp: class_namespace_def split: sum.splits)
      from loop[OF this] ClsStr True show ?thesis by (simp add: include_obj_def)
    next
      case False
      show ?thesis
      proof (cases "find_class E s")
        case None
        with ClsStr False assms(2,3) show ?thesis by (simp add: class_namespace_def)
      next
        case (Some D)
        with ClsStr False assms(2)
        have "scope_loop E h (Target D) scope_objs [] Map.empty = Inr class_space"
          by (auto simp: class_namespace_def split: sum.splits)
        from loop[OF this] ClsStr False Some show ?thesis by (simp add: include_obj_def)
      qed
    qed
  qed
qed

lemma ex_conforms: "conforms ex_dag ex_heap"
  unfolding conforms_def
  by (auto simp: ex_defs issubclass_def split: if_splits)

lemma ex_class_namespace:
  "class_namespace ex_env ex_heap (ClsType ''Signal'') [(''sig'', Ref 14), (''stage'', Ref 10)]
   = Inr ([(''sig'', Ref 14), (''stage_x_readback'', Ref 12)], [])"
  by (simp add: class_namespace_def ex_defs isinstance_def issubclass_def
      type_of_def include_obj_def isfunction_def component_names_def numeral_nat
      setattr_ns_def getattr_def device_name_def)

theorem class_namespace_entries_match_witness:
  "conforms (classes ex_env) ex_heap \<and>
   class_namespace ex_env ex_heap (ClsType ''Signal'') [(''sig'', Ref 14), (''stage'', Ref 10)]
     = Inr ([(''sig'', Ref 14), (''stage_x_readback'', Ref 12)], []) \<and>
   (''stage_x_readback'', Ref 12) \<in> set [(''sig'', Ref 14), (''stage_x_readback'', Ref 12)] \<and>
   isinstance (classes ex_env) ex_heap (Ref 12) ''Signal''"
proof -
  have c: "conforms (classes ex_env) ex_heap" using ex_conforms by (simp add: ex_env_def)
  have m: "(''stage_x_readback'', Ref 12) \<in> set [(''sig'', Ref 14), (''stage_x_readback'', Ref 12)]"
    by simp
  from class_namespace_entries_match[OF c ex_class_namespace m] c ex_class_namespace m
  show ?thesis by simp
qed

text \<open>
  In \<^verbatim>\<open>class_namespace\<close> the last writer wins: the signal stored under its scope name
  \<^verbatim>\<open>stage_x_readback\<close> is replaced by the sub-device of the stage that has this name,
  and nothing is logged.
\<close>

theorem class_namespace_overwrites_silently:
  "class_namespace ex_env ex_heap (ClsType ''Signal'')
     [(''stage_x_readback'', Ref 14), (''stage'', Ref 10)]
   = Inr ([(''stage_x_readback'', Ref 12)], [])"
  by (simp add: class_namespace_def ex_defs isinstance_def issubclass_def
      type_of_def include_obj_def isfunction_def component_names_def numeral_nat
      setattr_ns_def getattr_def device_name_def)

section \<open>Termination of the discovery\<close>








section \<open>Lazy slots\<close>

lemma cache_live_upd:
  "cache_live ct cache \<Longrightarrow> list_all (live_path ct c) ps \<Longrightarrow> cache_live ct (cache(c \<mapsto> ps))"
  by (auto simp: cache_live_def split: if_splits)

lemma inspect_live:
  "cache_live ct cache \<Longrightarrow>
   inspect_device_cls n ct c desired cache = Inr (ps, cache') \<Longrightarrow>
   cache_live ct cache' \<and> list_all (live_path ct c) ps"
  "cache_live ct cache \<Longrightarrow> list_all (live_path ct c) attrs \<Longrightarrow>
   inspect_cpts n ct c desired names attrs cache = Inr (ps, cache') \<Longrightarrow>
   cache_live ct cache' \<and> list_all (live_path ct c) ps"
proof (induction n ct c desired cache and n ct c desired names attrs cache
       arbitrary: ps cache' and ps cache' rule: inspect_device_cls_inspect_cpts.induct)
  case (1 ct device_cls desired_cls cache)
  then show ?case by simp
next
  case (2 n ct device_cls desired_cls cache)
  show ?case
  proof (cases "cache device_cls")
    case (Some attrs)
    with "2.prems" show ?thesis by (auto simp: cache_live_def)
  next
    case None
    show ?thesis
    proof (cases "issubclass ct device_cls ''Device''")
      case False
      with None "2.prems" show ?thesis by (auto intro: cache_live_upd)
    next
      case True
      from None True "2.prems"(2) obtain attrs c1 where
        run: "inspect_cpts n ct device_cls desired_cls (component_names (ct device_cls)) [] cache
              = Inr (attrs, c1)" and
        res: "ps = attrs" "cache' = c1(device_cls \<mapsto> attrs)"
        by (auto split: sum.splits)
      from "2.IH"[OF None True "2.prems"(1) _ run]
      have "cache_live ct c1 \<and> list_all (live_path ct device_cls) attrs"
        by simp
      then have "cache_live ct (c1(device_cls \<mapsto> attrs))"
          and "list_all (live_path ct device_cls) attrs"
        by (simp_all add: cache_live_upd)
      then show ?thesis unfolding res by blast
    qed
  qed
next
  case (3 n ct device_cls desired_cls attrs cache)
  then show ?case by simp
next
  case (4 n ct device_cls desired_cls cpt_name rest attrs cache)
  show ?case
  proof (cases "map_of (components (ct device_cls)) cpt_name")
    case None
    with "4.prems" show ?thesis by simp
  next
    case (Some cpt)
    show ?thesis
    proof (cases cpt)
      case Dynamic
      with Some "4.prems"(3) have
        run: "inspect_cpts n ct device_cls desired_cls rest attrs cache = Inr (ps, cache')"
        by simp
      show ?thesis
        using "4.IH"(4) Some Dynamic "4.prems"(1,2) run by blast
    next
      case (Component d lazy)
      show ?thesis
      proof (cases lazy)
        case True
        with Some Component "4.prems"(3) have
          run: "inspect_cpts n ct device_cls desired_cls rest attrs cache = Inr (ps, cache')"
          by simp
        show ?thesis
          using "4.IH"(1) Some Component True "4.prems"(1,2) run by blast
      next
        case False
        from Some Component False "4.prems"(3) obtain matches subattrs c1 where
          m: "issubclass_target ct d desired_cls = Inr matches" and
          sub: "inspect_device_cls n ct d desired_cls cache = Inr (subattrs, c1)" and
          rest: "inspect_cpts n ct device_cls desired_cls rest
                  ((if matches then attrs @ [[cpt_name]] else attrs)
                     @ map (\<lambda>a. cpt_name # a) subattrs) c1 = Inr (ps, cache')"
          by (auto split: sum.splits)
        from "4.IH"(2)[OF Some Component False m "4.prems"(1) sub]
        have c1: "cache_live ct c1" and
          subg: "list_all (live_path ct d) subattrs" by simp_all
        have cpt: "map_of (components (ct device_cls)) cpt_name = Some (Component d False)"
          using Some Component False by simp
        have g1: "live_path ct device_cls [cpt_name]"
          using cpt by simp
        have g2: "list_all (live_path ct device_cls) (map (\<lambda>a. cpt_name # a) subattrs)"
          using subg cpt by (simp add: list_all_iff)
        have acc: "list_all (live_path ct device_cls)
                ((if matches then attrs @ [[cpt_name]] else attrs)
                     @ map (\<lambda>a. cpt_name # a) subattrs)"
          using g1 g2 "4.prems"(2) by simp
        from "4.IH"(3)[OF Some Component False m sub _ c1 acc rest]
        show ?thesis by simp
      qed
    qed
  qed
qed

text \<open>
  Claim C4: a slot that is lazy, or that has no \<^verbatim>\<open>cls\<close>, is in no discovered path,
  neither as its last segment nor as a segment on the way. This holds of the paths
  returned and of those left in the cache for the following calls, starting from a
  cache of which it holds, as the empty cache of \<^verbatim>\<open>class_namespace\<close> does.
\<close>

theorem lazy_slots_never_in_paths:
  assumes "cache_live ct cache"
    and "inspect_device_cls n ct c desired cache = Inr (ps, cache')"
  shows "(\<forall>p \<in> set ps. live_path ct c p) \<and> cache_live ct cache'"
  using inspect_live(1)[OF assms] by (simp add: list_all_iff)

lemma ex_inspect:
  "\<exists>cache'. inspect_device_cls 1000 ex_dag ''Stage'' (Target ''Signal'') Map.empty
      = Inr ([[''x'', ''readback'']], cache')"
  by (simp add: ex_defs issubclass_def component_names_def numeral_nat)

theorem lazy_slots_never_in_paths_witness:
  "cache_live ex_dag Map.empty \<and>
   (\<exists>cache'. inspect_device_cls 1000 ex_dag ''Stage'' (Target ''Signal'') Map.empty
      = Inr ([[''x'', ''readback'']], cache') \<and> cache_live ex_dag cache') \<and>
   live_path ex_dag ''Stage'' [''x'', ''readback''] \<and>
   \<not> live_path ex_dag ''Stage'' [''y'', ''readback''] \<and>
   \<not> live_path ex_dag ''Stage'' [''x'', ''limits'']"
proof -
  have e: "cache_live ex_dag Map.empty" by (simp add: cache_live_def)
  from ex_inspect obtain cache' where
    r: "inspect_device_cls 1000 ex_dag ''Stage'' (Target ''Signal'') Map.empty
      = Inr ([[''x'', ''readback'']], cache')" ..
  from lazy_slots_never_in_paths[OF e r] e r
  have "cache_live ex_dag Map.empty \<and>
   (\<exists>cache'. inspect_device_cls 1000 ex_dag ''Stage'' (Target ''Signal'') Map.empty
      = Inr ([[''x'', ''readback'']], cache') \<and> cache_live ex_dag cache') \<and>
   live_path ex_dag ''Stage'' [''x'', ''readback'']" by auto
  moreover have "\<not> live_path ex_dag ''Stage'' [''y'', ''readback''] \<and>
   \<not> live_path ex_dag ''Stage'' [''x'', ''limits'']"
    by (simp add: ex_defs)
  ultimately show ?thesis by blast
qed

section \<open>Names that are left out\<close>


lemma check_keys_None_iff:
  "check_keys name keys = None \<longleftrightarrow> (\<forall>key \<in> set keys. \<not> iskeyword key \<and> isidentifier key)"
  by (induction keys) auto

lemma check_keys_Some:
  "check_keys name keys = Some w \<Longrightarrow>
   \<exists>key. w = WarnKeyword key name \<or> w = WarnInvalidIdentifier key name"
  by (induction keys) (auto split: if_splits)

lemma accumulate_step:
  "accumulate ((name, obj) # rest) t =
     (case check_keys name (split_on CHR ''_'' name) of
        Some w \<Rightarrow> (fst (accumulate rest t), w # snd (accumulate rest t))
      | None \<Rightarrow> accumulate rest (insert_path (split_on CHR ''_'' name) obj t))"
  by (simp add: Let_def case_prod_beta split: option.splits)

lemma accumulate_drop_invalid:
  assumes "check_keys name (split_on CHR ''_'' name) \<noteq> None"
  shows "fst (accumulate (filter (\<lambda>e. fst e \<noteq> name) objs) t) = fst (accumulate objs t)"
proof (induction objs arbitrary: t)
  case Nil
  show ?case by simp
next
  case (Cons e objs)
  obtain n v where e: "e = (n, v)" by (cases e)
  show ?case
  proof (cases "n = name")
    case True
    with assms e Cons.IH[of t] show ?thesis
      by (auto simp: accumulate_step simp del: accumulate.simps)
  next
    case False
    with e Cons.IH show ?thesis
      by (auto simp: accumulate_step simp del: accumulate.simps split: option.splits)
  qed
qed

lemma accumulate_warns:
  "(name, obj) \<in> set objs \<Longrightarrow> check_keys name (split_on CHR ''_'' name) = Some w \<Longrightarrow>
   w \<in> set (snd (accumulate objs t))"
proof (induction objs arbitrary: t)
  case Nil
  then show ?case by simp
next
  case (Cons e objs)
  obtain n v where e: "e = (n, v)" by (cases e)
  show ?case
  proof (cases "(name, obj) = e")
    case True
    with e Cons.prems(2) show ?thesis
      by (auto simp: accumulate_step simp del: accumulate.simps)
  next
    case False
    with Cons.prems(1) have "(name, obj) \<in> set objs" by simp
    from Cons.IH[OF this Cons.prems(2)] e show ?thesis
      by (auto simp: accumulate_step simp del: accumulate.simps split: option.splits)
  qed
qed

text \<open>
  Claim C6: a name with a segment that is a keyword or not an identifier is left
  out in full. A warning that names it is logged, and the container returned and
  the store are those of the mapping without this name: its object is placed
  nowhere, not even at a prefix of its path.
\<close>

theorem invalid_name_excluded:
  assumes "(name, obj) \<in> set objs"
    and "\<exists>key \<in> set (segments name). iskeyword key \<or> \<not> isidentifier key"
  shows "\<exists>root s' ws. tree_namespace (Some objs) s = Inr (root, s', ws) \<and>
           (\<exists>key. WarnKeyword key name \<in> set ws \<or> WarnInvalidIdentifier key name \<in> set ws) \<and>
           (\<exists>ws'. tree_namespace (Some (filter (\<lambda>e. fst e \<noteq> name) objs)) s
                    = Inr (root, s', ws'))"
proof -
  from assms(2) have inv: "check_keys name (split_on CHR ''_'' name) \<noteq> None"
    by (auto simp: check_keys_None_iff segments_def)
  then obtain w where w: "check_keys name (split_on CHR ''_'' name) = Some w" by auto
  from check_keys_Some[OF w] obtain key where
    key: "w = WarnKeyword key name \<or> w = WarnInvalidIdentifier key name" by auto
  obtain t ws0 where acc: "accumulate objs (Node None []) = (t, ws0)" by (cases "accumulate objs (Node None [])")
  obtain t' ws1 where acc': "accumulate (filter (\<lambda>e. fst e \<noteq> name) objs) (Node None []) = (t', ws1)"
    by (cases "accumulate (filter (\<lambda>e. fst e \<noteq> name) objs) (Node None [])")
  from accumulate_drop_invalid[OF inv, of objs "Node None []"] acc acc' have tt: "t' = t" by simp
  from accumulate_warns[OF assms(1) w, of "Node None []"] acc have win: "w \<in> set ws0" by simp
  obtain root s' ws2 where un: "unpack_node t s = (root, s', ws2)" by (cases "unpack_node t s")
  have r1: "tree_namespace (Some objs) s = Inr (root, s', ws0 @ ws2)"
    by (simp add: tree_namespace_def acc un)
  have r2: "tree_namespace (Some (filter (\<lambda>e. fst e \<noteq> name) objs)) s = Inr (root, s', ws1 @ ws2)"
    by (simp add: tree_namespace_def acc' tt un)
  from key win have "WarnKeyword key name \<in> set (ws0 @ ws2) \<or> WarnInvalidIdentifier key name \<in> set (ws0 @ ws2)"
    by auto
  with r1 r2 show ?thesis by blast
qed


theorem invalid_name_excluded_witness:
  "(''class_motor'', Ref 4) \<in> set [(''class_motor'', Ref 4), (''vacuum_gauge_main'', Ref 5)] \<and>
   (\<exists>key \<in> set (segments ''class_motor''). iskeyword key \<or> \<not> isidentifier key) \<and>
   (\<exists>root s' ws.
      tree_namespace (Some [(''class_motor'', Ref 4), (''vacuum_gauge_main'', Ref 5)]) ex_store
        = Inr (root, s', ws) \<and>
      (\<exists>key. WarnKeyword key ''class_motor'' \<in> set ws \<or>
             WarnInvalidIdentifier key ''class_motor'' \<in> set ws) \<and>
      (\<exists>ws'. tree_namespace (Some (filter (\<lambda>e. fst e \<noteq> ''class_motor'')
                 [(''class_motor'', Ref 4), (''vacuum_gauge_main'', Ref 5)])) ex_store
               = Inr (root, s', ws')))"
proof -
  have m: "(''class_motor'', Ref 4) \<in> set [(''class_motor'', Ref 4), (''vacuum_gauge_main'', Ref 5)]"
    by simp
  have k: "\<exists>key \<in> set (segments ''class_motor''). iskeyword key \<or> \<not> isidentifier key"
    by (simp add: segments_def iskeyword_def kwlist_def)
  from invalid_name_excluded[OF m k, of ex_store] m k show ?thesis by blast
qed

section \<open>The store during unpacking\<close>

lemma unpack_node_cases:
  assumes "unpack_node (Node l cs) s = (r, s', ws)"
  obtains (fresh) a s1 where "l = None \<or> l = Some PyNone" "new_namespace s = (a, s1)"
      "unpack_items cs a s1 = (r, s', ws)"
  | (leaf) a where "l = Some (Ref a)" "unpack_items cs a s = (r, s', ws)"
  using assms by (auto split: option.splits val.splits prod.splits)

lemma unpack_items_cases:
  assumes "unpack_items ((key, value) # rest) a s = (r, s', ws)"
  obtains (conflict) ws' where "hasattr s a key" "unpack_items rest a s = (r, s', ws')"
      "ws = WarnOverwrite a key (the (map_of (obj_attrs (st_heap s a)) key)) # ws'"
  | (attach) sub s1 ws1 ws' where "\<not> hasattr s a key" "unpack_node value s = (sub, s1, ws1)"
      "obj_settable (st_heap s1 a)" "unpack_items rest a (setattr s1 a key sub) = (r, s', ws')"
      "ws = ws1 @ ws'"
  | (replace) sub s1 ws1 b s2 ws' where "\<not> hasattr s a key"
      "unpack_node value s = (sub, s1, ws1)" "\<not> obj_settable (st_heap s1 a)"
      "new_namespace s1 = (b, s2)" "unpack_items rest b (setattr s2 b key sub) = (r, s', ws')"
      "ws = ws1 @ WarnNotValidNode a # ws'"
  using assms by (auto split: if_splits prod.splits)

lemma extends_refl: "extends s s"
  by (simp add: extends_def)

lemma extends_trans: "extends s s1 \<Longrightarrow> extends s1 s2 \<Longrightarrow> extends s s2"
  unfolding extends_def by (metis (no_types, lifting) less_le_trans order_trans)

lemma extends_new_namespace: "new_namespace s = (a, s1) \<Longrightarrow> extends s s1"
  by (auto simp: new_namespace_def extends_def)

lemma new_namespace_facts:
  assumes "new_namespace s = (a, s1)"
  shows "a = st_next s" "st_next s1 = Suc (st_next s)" "st_heap s1 a = empty_namespace"
    "\<And>b. b \<noteq> a \<Longrightarrow> st_heap s1 b = st_heap s b"
  using assms by (auto simp: new_namespace_def)

lemma setattr_facts:
  "st_next (setattr s a k v) = st_next s"
  "b \<noteq> a \<Longrightarrow> st_heap (setattr s a k v) b = st_heap s b"
  "obj_settable (st_heap (setattr s a k v) b) = obj_settable (st_heap s b)"
  "obj_type (st_heap (setattr s a k v) b) = obj_type (st_heap s b)"
  "obj_attrs (st_heap (setattr s a k v) a) = AList.update k v (obj_attrs (st_heap s a))"
  by (auto simp: setattr_def)

lemma extends_setattr:
  assumes "extends s s1" and "\<not> hasattr s a k" and "obj_settable (st_heap s1 a)"
  shows "extends s (setattr s1 a k v)"
  unfolding extends_def
proof (intro conjI allI impI)
  show "st_next s \<le> st_next (setattr s1 a k v)"
    using assms(1) by (simp add: extends_def setattr_facts)
next
  fix b assume b: "b < st_next s"
  show "obj_type (st_heap (setattr s1 a k v) b) = obj_type (st_heap s b)"
    using assms(1) b by (simp add: extends_def setattr_facts)
  show "obj_settable (st_heap (setattr s1 a k v) b) = obj_settable (st_heap s b)"
    using assms(1) b by (simp add: extends_def setattr_facts)
  show "st_heap (setattr s1 a k v) b = st_heap s b" if "\<not> obj_settable (st_heap s b)"
  proof -
    from assms(1) b that have "b \<noteq> a" using assms(3) by (auto simp: extends_def)
    with assms(1) b that show ?thesis by (simp add: extends_def setattr_facts)
  qed
  show "map_of (obj_attrs (st_heap (setattr s1 a k v) b)) k' = Some v'"
    if "map_of (obj_attrs (st_heap s b)) k' = Some v'" for k' v'
  proof (cases "b = a")
    case False
    with assms(1) b that show ?thesis by (simp add: extends_def setattr_facts)
  next
    case True
    with that assms(2) have "k' \<noteq> k" by (auto simp: hasattr_def)
    moreover from assms(1) b that have "map_of (obj_attrs (st_heap s1 b)) k' = Some v'"
      by (simp add: extends_def)
    ultimately show ?thesis using True by (simp add: setattr_facts update_conv')
  qed
qed

lemma extends_setattr_fresh:
  assumes "extends s s2" and "st_next s \<le> b"
  shows "extends s (setattr s2 b k v)"
  using assms by (auto simp: extends_def setattr_def)

lemma unpack_extends:
  "unpack_node t s = (r, s', ws) \<Longrightarrow> extends s s'"
  "unpack_items cs a s = (r, s', ws) \<Longrightarrow> extends s s'"
proof (induction t s and cs a s arbitrary: r s' ws and r s' ws
       rule: unpack_node_unpack_items.induct)
  case (1 l cs s)
  from "1.prems" show ?case
  proof (cases rule: unpack_node_cases)
    case (fresh a s1)
    from fresh(1,2,3) "1.IH"(1) have "extends s1 s'"
      by (auto simp: new_namespace_def)
    with extends_new_namespace[OF fresh(2)] show ?thesis by (rule extends_trans)
  next
    case (leaf a)
    with "1.IH"(2) show ?thesis by auto
  qed
next
  case (2 a s)
  then show ?case by (simp add: extends_refl)
next
  case (3 key "value" rest a s)
  from "3.prems" show ?case
  proof (cases rule: unpack_items_cases)
    case (conflict ws')
    with "3.IH"(1) show ?thesis by blast
  next
    case (attach sub s1 ws1 ws')
    from "3.IH"(2)[OF attach(1) attach(2)] have e1: "extends s s1" .
    have e2: "extends s (setattr s1 a key sub)"
      by (rule extends_setattr[OF e1 attach(1) attach(3)])
    from "3.IH"(3)[OF attach(1) attach(2)[symmetric] refl refl attach(3) attach(4)]
    have "extends (setattr s1 a key sub) s'" .
    with e2 show ?thesis by (rule extends_trans)
  next
    case (replace sub s1 ws1 b s2 ws')
    from "3.IH"(2)[OF replace(1) replace(2)] have e1: "extends s s1" .
    from extends_new_namespace[OF replace(4)] have e2: "extends s1 s2" .
    from e1 e2 have e3: "extends s s2" by (rule extends_trans)
    from e1 new_namespace_facts(1)[OF replace(4)] have "st_next s \<le> b"
      by (simp add: extends_def)
    from extends_setattr_fresh[OF e3 this] have e4: "extends s (setattr s2 b key sub)" .
    from "3.IH"(4)[OF replace(1) replace(2)[symmetric] refl refl replace(3)
        replace(4)[symmetric] refl replace(5)]
    have "extends (setattr s2 b key sub) s'" .
    with e4 show ?thesis by (rule extends_trans)
  qed
qed



lemma same_outside_new_namespace: "new_namespace s = (a, s1) \<Longrightarrow> same_outside A s s1"
  by (auto simp: new_namespace_def same_outside_def)






lemma unpack_node_is_ref: "unpack_node t s = (r, s', ws) \<Longrightarrow> \<exists>c. r = Ref c"
  and unpack_items_is_ref: "unpack_items cs a s = (r, s', ws) \<Longrightarrow> \<exists>c. r = Ref c"
proof (induction t s and cs a s arbitrary: r s' ws and r s' ws
       rule: unpack_node_unpack_items.induct)
  case (1 l cs s)
  from "1.prems" show ?case
  proof (cases rule: unpack_node_cases)
    case (fresh a s1)
    with "1.IH"(1) show ?thesis by (auto simp: new_namespace_def)
  next
    case (leaf a)
    with "1.IH"(2) show ?thesis by auto
  qed
next
  case (2 a s)
  then show ?case by auto
next
  case (3 key "value" rest a s)
  from "3.prems" show ?case
  proof (cases rule: unpack_items_cases)
    case (conflict ws')
    with "3.IH"(1) show ?thesis by blast
  next
    case (attach sub s1 ws1 ws')
    from "3.IH"(3)[OF attach(1) attach(2)[symmetric] refl refl attach(3) attach(4)]
    show ?thesis .
  next
    case (replace sub s1 ws1 b s2 ws')
    from "3.IH"(4)[OF replace(1) replace(2)[symmetric] refl refl replace(3)
        replace(4)[symmetric] refl replace(5)]
    show ?thesis .
  qed
qed

section \<open>A key that the container already has\<close>

text \<open>
  Claim C5, as the code has it. In the loop of \<^verbatim>\<open>unpack_node\<close>, when the container
  already has an attribute under the key of a child, the attribute keeps its value
  to the end of the loop, a warning is logged, and the child is dropped: the result
  and the store are those of the loop over the remaining children alone. No
  attribute that an object had before the loop is given another value.
  \<^verbatim>\<open>class_namespace\<close> is different: it stores without looking, and the last writer
  wins.
\<close>

theorem conflicting_key_preserved:
  assumes "hasattr s a key" and "a < st_next s"
    and "unpack_items ((key, value) # rest) a s = (r, s', ws)"
  shows "map_of (obj_attrs (st_heap s' a)) key = map_of (obj_attrs (st_heap s a)) key \<and>
         WarnOverwrite a key (the (map_of (obj_attrs (st_heap s a)) key)) \<in> set ws \<and>
         (\<exists>ws'. unpack_items rest a s = (r, s', ws')) \<and>
         (\<forall>b < st_next s. \<forall>k v. map_of (obj_attrs (st_heap s b)) k = Some v
            \<longrightarrow> map_of (obj_attrs (st_heap s' b)) k = Some v)"
proof -
  from unpack_extends(2)[OF assms(3)] have e: "extends s s'" .
  from assms(1) obtain v where v: "map_of (obj_attrs (st_heap s a)) key = Some v"
    by (auto simp: hasattr_def)
  with e assms(2) have "map_of (obj_attrs (st_heap s' a)) key = Some v"
    by (simp add: extends_def)
  with v have 1: "map_of (obj_attrs (st_heap s' a)) key = map_of (obj_attrs (st_heap s a)) key"
    by simp
  from assms(3) have 2: "WarnOverwrite a key (the (map_of (obj_attrs (st_heap s a)) key)) \<in> set ws
      \<and> (\<exists>ws'. unpack_items rest a s = (r, s', ws'))"
  proof (cases rule: unpack_items_cases)
    case (conflict ws')
    then show ?thesis by auto
  next
    case (attach sub s1 ws1 ws')
    with assms(1) show ?thesis by simp
  next
    case (replace sub s1 ws1 b s2 ws')
    with assms(1) show ?thesis by simp
  qed
  from e have 3: "\<forall>b < st_next s. \<forall>k v. map_of (obj_attrs (st_heap s b)) k = Some v
            \<longrightarrow> map_of (obj_attrs (st_heap s' b)) k = Some v"
    by (simp add: extends_def)
  from 1 2 3 show ?thesis by blast
qed

lemmas tree_eval = new_namespace_def hasattr_def setattr_def empty_namespace_def getattr_def

theorem conflicting_key_preserved_witness:
  "hasattr ex_store 2 ''gauge'' \<and> 2 < st_next ex_store \<and>
   unpack_items [(''gauge'', Node (Some (Ref 5)) [])] 2 ex_store
     = (Ref 2, ex_store, [WarnOverwrite 2 ''gauge'' (Ref 4)]) \<and>
   map_of (obj_attrs (st_heap ex_store 2)) ''gauge'' = Some (Ref 4) \<and>
   unpack_items [] 2 ex_store = (Ref 2, ex_store, [])"
proof -
  have h: "hasattr ex_store 2 ''gauge''" by (simp add: ex_defs tree_eval)
  have n: "2 < st_next ex_store" by (simp add: ex_defs)
  have u: "unpack_items [(''gauge'', Node (Some (Ref 5)) [])] 2 ex_store
     = (Ref 2, ex_store, [WarnOverwrite 2 ''gauge'' (Ref 4)])"
    by (simp add: ex_defs tree_eval)
  from conflicting_key_preserved[OF h n u] h n u show ?thesis
    by (simp add: ex_defs)
qed

section \<open>A leaf that takes no attribute\<close>



section \<open>Paths through new containers\<close>





section \<open>The tree built from the names\<close>





















section \<open>Where a valid name ends up\<close>








lemmas name_eval =
  valid_name_def segments_def iskeyword_def kwlist_def isidentifier_def id_start_def
  id_continue_def

lemmas attr_eval = attr_at_def tree_namespace_def name_eval tree_eval ex_defs





section \<open>The examples of the specification\<close>

text \<open>
  The name \<^verbatim>\<open>vacuum_gauge_main\<close> puts its object at \<^verbatim>\<open>root.vacuum.gauge.main\<close>; the name
  \<^verbatim>\<open>class_motor\<close> leaves nothing in the tree, so that \<^verbatim>\<open>root.class\<close> raises
  \<^verbatim>\<open>AttributeError\<close>; with \<^verbatim>\<open>a_b\<close> bound to an integer and \<^verbatim>\<open>a_b_c\<close> to an object,
  \<^verbatim>\<open>root.a.b.c\<close> is that object and \<^verbatim>\<open>root.a.b\<close> is a container made during the call.
\<close>

lemma example_vacuum_gauge_main:
  "attr_at [(''vacuum_gauge_main'', Ref 5)] ex_store [''vacuum'', ''gauge'', ''main'']
     = Inr (Ref 5)"
  by (simp add: attr_eval)

lemma example_class_motor:
  "attr_at [(''class_motor'', Ref 5)] ex_store [''class''] = Inl AttributeError \<and>
   attr_at [(''class_motor'', Ref 5)] ex_store [''motor''] = Inl AttributeError"
  by (simp add: attr_eval)

lemma example_primitive_leaf:
  "attr_at [(''a_b'', Ref 1), (''a_b_c'', Ref 5)] ex_store [''a'', ''b'', ''c''] = Inr (Ref 5) \<and>
   attr_at [(''a_b'', Ref 1), (''a_b_c'', Ref 5)] ex_store [''a'', ''b''] = Inr (Ref 32) \<and>
   st_next ex_store \<le> 32"
  by (simp add: attr_eval)

end
